theory Spec2Isabelle
  imports Main "HOL-Library.Multiset"
begin

section \<open>Data model of RosterApp-V2.tsx\<close>

text \<open>
  \<^verbatim>\<open>type TaskType = "front" | "gallery" | "break" | "prep" | "tour" | "tidy"
                 | "school-pre" | "school-program"\<close>
\<close>

datatype TaskType = Front | Gallery | Break | Prep | Tour | Tidy | SchoolPre | SchoolProgram

text \<open>
  \<^verbatim>\<open>type Task = { id, empId, type, label, start, end }\<close>. The fields \<open>id\<close>, \<open>type\<close>
  and \<open>end\<close> are written \<open>tid\<close>, \<open>ttype\<close> and \<open>tend\<close>. Row indices are JavaScript
  numbers that only ever hold integers here; they are modelled as \<open>int\<close>.
\<close>

record Task =
  tid :: string
  empId :: string
  ttype :: TaskType
  label :: string
  start :: int
  tend :: int

record Employee =
  eid :: string
  name :: string
  shiftStart :: int
  shiftEnd :: int

text \<open>
  The state the functions of the component read and write: the two \<open>useState\<close> cells
  \<open>employees\<close> and \<open>tasks\<close>, the selection, and the module-level counter \<open>seq\<close>.
\<close>

record AppState =
  employees :: "Employee list"
  tasks :: "Task list"
  selectedId :: "string option"
  seq :: nat

section \<open>Time helpers\<close>

definition DAY_START_MIN :: int where
  "DAY_START_MIN = 9 * 60 + 30"

definition TOTAL_ROWS :: int where
  "TOTAL_ROWS = 26"

text \<open>\<open>Number.prototype.toString()\<close> on an integer: decimal digits, a minus sign first.\<close>

definition digit_char :: "nat \<Rightarrow> char" where
  "digit_char d = ''0123456789'' ! (d mod 10)"

fun nat_toString :: "nat \<Rightarrow> string" where
  "nat_toString n =
     (if n < 10 then [digit_char n] else nat_toString (n div 10) @ [digit_char (n mod 10)])"

definition toString :: "int \<Rightarrow> string" where
  "toString i = (if i < 0 then CHR ''-'' # nat_toString (nat (- i)) else nat_toString (nat i))"

text \<open>\<open>s.padStart(n, "0")\<close>: zeros in front up to length \<open>n\<close>, a longer string unchanged.\<close>

definition padStart :: "nat \<Rightarrow> char \<Rightarrow> string \<Rightarrow> string" where
  "padStart n c s = replicate (n - length s) c @ s"

text \<open>
  JavaScript's \<open>%\<close> takes the sign of the dividend; \<open>Math.floor(a / b)\<close> on integers is
  HOL's \<open>div\<close> on \<open>int\<close>.
\<close>

definition js_rem :: "int \<Rightarrow> int \<Rightarrow> int" where
  "js_rem a b = (if a < 0 then - ((- a) mod \<bar>b\<bar>) else a mod \<bar>b\<bar>)"

definition rowToTime :: "int \<Rightarrow> string" where
  "rowToTime row =
     (let mins = DAY_START_MIN + row * 15;
          h = padStart 2 (CHR ''0'') (toString (mins div 60));
          m = padStart 2 (CHR ''0'') (toString (js_rem mins 60))
      in h @ '':'' @ m)"

definition rowRangeLabel :: "int \<Rightarrow> int \<Rightarrow> string" where
  "rowRangeLabel s e = rowToTime s @ ''-'' @ rowToTime e"

text \<open>\<open>hhmm.split(":")\<close>: the pieces between the separators; always at least one piece.\<close>

fun split_on :: "char \<Rightarrow> string \<Rightarrow> string list" where
  "split_on c [] = [[]]"
| "split_on c (x # xs) =
     (if x = c then [] # split_on c xs
      else (case split_on c xs of
              [] \<Rightarrow> [[x]]
            | w # ws \<Rightarrow> (x # w) # ws))"

text \<open>
  \<open>Number(s)\<close> on a string. The model covers the empty string (which is 0) and strings of
  decimal digits (leading zeros allowed); \<open>None\<close> stands for every other string, where
  JavaScript yields \<open>NaN\<close> or parses a sign, blanks, a fraction, an exponent or a radix
  prefix, none of which \<open>rowToTime\<close> produces for a row of the grid.
\<close>

definition digit_val :: "char \<Rightarrow> nat option" where
  "digit_val c = map_of (zip ''0123456789'' [0 ..< 10]) c"

fun parse_digits :: "nat \<Rightarrow> string \<Rightarrow> nat option" where
  "parse_digits acc [] = Some acc"
| "parse_digits acc (c # cs) =
     (case digit_val c of
        None \<Rightarrow> None
      | Some d \<Rightarrow> parse_digits (10 * acc + d) cs)"

definition Number :: "string \<Rightarrow> int option" where
  "Number s = map_option int (parse_digits 0 s)"

text \<open>
  \<^verbatim>\<open>const [h, m] = hhmm.split(":").map(Number);
  const mins = h * 60 + m;
  return Math.max(0, Math.min(TOTAL_ROWS, Math.floor((mins - DAY_START_MIN) / 15)));\<close>
  A missing piece is \<open>undefined\<close> and makes the arithmetic \<open>NaN\<close>, which \<open>Math.min\<close>
  and \<open>Math.max\<close> pass on: the result is then \<open>None\<close>.
\<close>

definition toRow :: "string \<Rightarrow> int option" where
  "toRow hhmm =
     (case map Number (split_on (CHR '':'') hhmm) of
        Some h # Some m # _ \<Rightarrow>
          (let mins = h * 60 + m
           in Some (max 0 (min TOTAL_ROWS ((mins - DAY_START_MIN) div 15))))
      | _ \<Rightarrow> None)"

section \<open>Labels, tour-like kinds, ids\<close>

fun TYPE_LABEL :: "TaskType \<Rightarrow> string" where
  "TYPE_LABEL Front = ''Front Desk''"
| "TYPE_LABEL Gallery = ''Gallery''"
| "TYPE_LABEL Break = ''Break''"
| "TYPE_LABEL Prep = ''Prep''"
| "TYPE_LABEL Tour = ''Public Tour''"
| "TYPE_LABEL Tidy = ''Finish''"
| "TYPE_LABEL SchoolPre = ''School Pre''"
| "TYPE_LABEL SchoolProgram = ''School Program''"

text \<open>\<^verbatim>\<open>const isTourLike = (t) => t === "tour" || t === "school-program";\<close>\<close>

definition isTourLike :: "TaskType \<Rightarrow> bool" where
  "isTourLike t = (t = Tour \<or> t = SchoolProgram)"

text \<open>\<^verbatim>\<open>let seq = 0; const uid = () => `t_${++seq}`;\<close>: the counter is threaded through.\<close>

definition uid :: "AppState \<Rightarrow> string \<times> AppState" where
  "uid st = (''t_'' @ nat_toString (seq st + 1), st\<lparr>seq := seq st + 1\<rparr>)"

section \<open>Compactor: mergeAdjacent\<close>

text \<open>
  The test of the loop body, for a \<open>last\<close> that exists:
  \<^verbatim>\<open>last.type === t.type && last.label === t.label && last.end === t.start &&
  !isTourLike(t.type) && !isTourLike(last.type)\<close>
\<close>

definition sameKind :: "Task \<Rightarrow> Task \<Rightarrow> bool" where
  "sameKind last_t t =
     (ttype last_t = ttype t \<and> label last_t = label t \<and> tend last_t = start t \<and>
      \<not> isTourLike (ttype t) \<and> \<not> isTourLike (ttype last_t))"

text \<open>
  One iteration of \<^verbatim>\<open>for (const t of arr)\<close> on the array \<open>keep\<close>:
  \<open>last = keep[keep.length - 1]\<close> is \<open>undefined\<close> on the empty array, and then \<open>t\<close> is
  pushed; otherwise either the end of the last element is overwritten or a copy of \<open>t\<close>
  is pushed. The elements of \<open>keep\<close> are fresh copies, so the write \<open>last.end = t.end\<close>
  reaches no object of \<open>prev\<close>.
\<close>

definition merge_step :: "Task list \<Rightarrow> Task \<Rightarrow> Task list" where
  "merge_step keep t =
     (if keep \<noteq> [] \<and> sameKind (last keep) t
      then butlast keep @ [(last keep)\<lparr>tend := tend t\<rparr>]
      else keep @ [t])"

text \<open>
  The updater passed to \<open>setTasks\<close>. \<open>Array.prototype.sort\<close> is stable and the
  comparator is \<open>a.start - b.start\<close>; \<open>sort_key\<close> is the stable insertion sort.
\<close>

definition mergeAdjacent :: "string \<Rightarrow> Task list \<Rightarrow> Task list" where
  "mergeAdjacent e prev =
     (let arr = sort_key start (filter (\<lambda>t. empId t = e) prev);
          keep = foldl merge_step [] arr;
          others = filter (\<lambda>t. empId t \<noteq> e) prev
      in others @ keep)"

section \<open>Overlap resolver: resolveOverlaps\<close>

text \<open>
  What one iteration of \<^verbatim>\<open>for (const t of prev)\<close> appends to \<open>next\<close>. The source
  writes the body of this loop in a mixed notation (\<^verbatim>\<open>if (t.end <= start or t.start >= end):\<close>,
  \<^verbatim>\<open>next.append({**t, "end": start})\<close>, \<^verbatim>\<open>continue\<close>); the model follows its tests, in
  their order, each ending in \<open>continue\<close>. A task that passes none of them is appended
  nowhere. \<open>exceptId\<close> is optional: \<open>t.id == undefined\<close> is false for every string.
\<close>

definition resolve_step :: "string \<Rightarrow> int \<Rightarrow> int \<Rightarrow> string option \<Rightarrow> Task \<Rightarrow> Task list" where
  "resolve_step e s en exceptId t =
     (if empId t \<noteq> e \<or> Some (tid t) = exceptId then [t]
      else if tend t \<le> s \<or> start t \<ge> en then [t]
      else if start t \<ge> s \<and> tend t \<le> en then []
      else if start t < s \<and> tend t \<le> en then [t\<lparr>tend := s\<rparr>]
      else if start t \<ge> s \<and> tend t > en then [t\<lparr>start := en\<rparr>]
      else if start t < s \<and> tend t > en then [t\<lparr>tend := s\<rparr>, t\<lparr>start := en\<rparr>]
      else [])"

definition resolveOverlaps :: "string \<Rightarrow> int \<Rightarrow> int \<Rightarrow> string option \<Rightarrow> Task list \<Rightarrow> Task list" where
  "resolveOverlaps e s en exceptId prev =
     foldl (\<lambda>next t. next @ resolve_step e s en exceptId t) [] prev"

section \<open>Adding a task, deleting the selection\<close>

text \<open>
  \<^verbatim>\<open>const addTaskAt = (empId, row, type) => {
    const label = TYPE_LABEL[type];
    const newTask = { id: uid(), empId, type, label, start: row, end: row + 1 };
    resolveOverlaps(empId, row, row + 1);
    setTasks((prev) => [...prev, newTask]);
    if (!isTourLike(type)) mergeAdjacent(empId);
    setSelectedId(newTask.id);
  };\<close>
  The three updaters queued on \<open>tasks\<close> run in the order they were queued, each on the
  result of the one before. The row is an \<open>int\<close>, so \<open>row + 1\<close> is exact; this is the
  source's arithmetic for an integer row of magnitude below \<open>2 ^ 53\<close>, the range in which a
  JavaScript number adds 1 without rounding.
\<close>

definition addTaskAt :: "string \<Rightarrow> int \<Rightarrow> TaskType \<Rightarrow> AppState \<Rightarrow> AppState" where
  "addTaskAt e row ty st =
     (let lbl = TYPE_LABEL ty;
          (new_id, st1) = uid st;
          newTask = \<lparr>tid = new_id, empId = e, ttype = ty, label = lbl,
                     start = row, tend = row + 1\<rparr>;
          t1 = resolveOverlaps e row (row + 1) None (tasks st1);
          t2 = t1 @ [newTask];
          t3 = (if \<not> isTourLike ty then mergeAdjacent e t2 else t2)
      in st1\<lparr>tasks := t3, selectedId := Some new_id\<rparr>)"

text \<open>
  The keyboard handler: Delete or Backspace removes every task whose id is the selected
  one (a selection that is \<open>null\<close> or the empty string is falsy), Escape clears the
  selection.
\<close>

definition onKey :: "string \<Rightarrow> AppState \<Rightarrow> AppState" where
  "onKey key st =
     (let st1 = (if key = ''Delete'' \<or> key = ''Backspace''
                 then (case selectedId st of
                         None \<Rightarrow> st
                       | Some sel \<Rightarrow>
                           if sel = [] then st
                           else st\<lparr>tasks := filter (\<lambda>t. tid t \<noteq> sel) (tasks st),
                                   selectedId := None\<rparr>)
                 else st)
      in if key = ''Escape'' then st1\<lparr>selectedId := None\<rparr> else st1)"

text \<open>
  The initial state of the component; the shift bounds are \<open>toRow("09:30")\<close>,
  \<open>toRow("09:45")\<close>, \<open>toRow("10:00")\<close> and \<open>toRow("16:00")\<close> (\<open>row_of\<close> reads the
  number out of the result of \<open>toRow\<close>, which is defined on these four strings), and the
  two seed tasks have taken the ids \<open>t_1\<close> and \<open>t_2\<close>.
\<close>

definition row_of :: "string \<Rightarrow> int" where
  "row_of hhmm = (case toRow hhmm of Some r \<Rightarrow> r | None \<Rightarrow> 0)"

definition initial_state :: AppState where
  "initial_state =
     \<lparr>employees =
        [\<lparr>eid = ''e_john'', name = ''John'', shiftStart = row_of ''09:30'', shiftEnd = row_of ''16:00''\<rparr>,
         \<lparr>eid = ''e_robert'', name = ''Robert'', shiftStart = row_of ''09:45'', shiftEnd = row_of ''16:00''\<rparr>,
         \<lparr>eid = ''e_mary'', name = ''Mary'', shiftStart = row_of ''10:00'', shiftEnd = row_of ''16:00''\<rparr>],
      tasks =
        [\<lparr>tid = ''t_1'', empId = ''e_john'', ttype = Front, label = TYPE_LABEL Front, start = 0, tend = 1\<rparr>,
         \<lparr>tid = ''t_2'', empId = ''e_john'', ttype = Gallery, label = TYPE_LABEL Gallery, start = 1, tend = 3\<rparr>],
      selectedId = None,
      seq = 2\<rparr>"

section \<open>The compactor in the words of the specification\<close>

text \<open>
  Section 4.3 of the specification: walk the sorted sequence maintaining a last kept
  task; a task is merged into the last kept one, by extending its end, if and only if both
  have the same kind and the same label, they are contiguous and neither is tour-like;
  otherwise the last kept task is final and the task becomes the last kept one.
\<close>

definition spec_mergeable :: "Task \<Rightarrow> Task \<Rightarrow> bool" where
  "spec_mergeable l t =
     (ttype l = ttype t \<and> label l = label t \<and> tend l = start t \<and>
      \<not> (ttype l = Tour \<or> ttype l = SchoolProgram) \<and>
      \<not> (ttype t = Tour \<or> ttype t = SchoolProgram))"

fun spec_walk :: "Task \<Rightarrow> Task list \<Rightarrow> Task list" where
  "spec_walk l [] = [l]"
| "spec_walk l (t # ts) =
     (if spec_mergeable l t then spec_walk (l\<lparr>tend := tend t\<rparr>) ts else l # spec_walk t ts)"

fun spec_compact :: "Task list \<Rightarrow> Task list" where
  "spec_compact [] = []"
| "spec_compact (t # ts) = spec_walk t ts"

definition spec_mergeAdjacent :: "string \<Rightarrow> Task list \<Rightarrow> Task list" where
  "spec_mergeAdjacent e prev =
     filter (\<lambda>t. empId t \<noteq> e) prev @
     spec_compact (sort_key start (filter (\<lambda>t. empId t = e) prev))"

section \<open>Predicates on stores\<close>

text \<open>A task is valid when its range is not empty: \<open>start < end\<close>.\<close>

definition valid_task :: "Task \<Rightarrow> bool" where
  "valid_task t = (start t < tend t)"




text \<open>Task \<open>t\<close> gives row \<open>r\<close> the kind \<open>k\<close> and the label \<open>l\<close>.\<close>

definition covers :: "int \<Rightarrow> TaskType \<Rightarrow> string \<Rightarrow> Task \<Rightarrow> bool" where
  "covers r k l t = (ttype t = k \<and> label t = l \<and> start t \<le> r \<and> r < tend t)"


text \<open>No two neighbours of the list could be merged by the walk.\<close>

fun unmerged :: "Task list \<Rightarrow> bool" where
  "unmerged (a # b # ts) = (\<not> spec_mergeable a b \<and> unmerged (b # ts))"
| "unmerged _ = True"

section \<open>Time conversion\<close>

lemma roundtrip_rows: "list_all (\<lambda>r. toRow (rowToTime r) = Some r) [0..26]"
  by code_simp

text \<open>
  Claim C7. For every row index \<open>r\<close> with \<open>0 \<le> r \<le> TOTAL_ROWS\<close>, converting \<open>r\<close> to a
  wall-clock string with \<open>rowToTime\<close> and back with \<open>toRow\<close> gives \<open>r\<close> again.
\<close>

theorem toRow_rowToTime:
  "0 \<le> r \<Longrightarrow> r \<le> TOTAL_ROWS \<Longrightarrow> toRow (rowToTime r) = Some r"
proof -
  assume "0 \<le> r" and "r \<le> TOTAL_ROWS"
  then have "r \<in> set [0..26]"
    by (simp add: TOTAL_ROWS_def)
  with roundtrip_rows show ?thesis
    unfolding list_all_iff by blast
qed

theorem toRow_rowToTime_witness:
  "(0::int) \<le> 26 \<and> 26 \<le> TOTAL_ROWS \<and> toRow (rowToTime 26) = Some 26"
  using toRow_rowToTime [of 26] by (simp add: TOTAL_ROWS_def)

section \<open>The overlap resolver, task by task\<close>

lemma resolveOverlaps_foldl:
  "foldl (\<lambda>next t. next @ resolve_step e s en ex t) acc prev
     = acc @ concat (map (resolve_step e s en ex) prev)"
  by (induction prev arbitrary: acc) simp_all

lemma resolveOverlaps_concat:
  "resolveOverlaps e s en ex prev = concat (map (resolve_step e s en ex) prev)"
  by (simp add: resolveOverlaps_def resolveOverlaps_foldl)

lemma resolveOverlaps_Nil [simp]: "resolveOverlaps e s en ex [] = []"
  by (simp add: resolveOverlaps_concat)

lemma resolveOverlaps_Cons [simp]:
  "resolveOverlaps e s en ex (t # ts) = resolve_step e s en ex t @ resolveOverlaps e s en ex ts"
  by (simp add: resolveOverlaps_concat)

lemma resolveOverlaps_append [simp]:
  "resolveOverlaps e s en ex (xs @ ys) = resolveOverlaps e s en ex xs @ resolveOverlaps e s en ex ys"
  by (simp add: resolveOverlaps_concat)


lemma resolve_step_tid: "u \<in> set (resolve_step e s en ex t) \<Longrightarrow> tid u = tid t"
  by (auto simp: resolve_step_def split: if_splits)

lemma resolve_step_other: "empId t \<noteq> e \<Longrightarrow> resolve_step e s en ex t = [t]"
  by (simp add: resolve_step_def)

lemma filter_other_resolve_step:
  "filter (\<lambda>t. empId t \<noteq> e) (resolve_step e s en ex t) = filter (\<lambda>t. empId t \<noteq> e) [t]"
  by (auto simp: resolve_step_def)

lemma filter_other_resolveOverlaps:
  "filter (\<lambda>t. empId t \<noteq> e) (resolveOverlaps e s en ex prev) = filter (\<lambda>t. empId t \<noteq> e) prev"
proof (induction prev)
  case Nil
  show ?case by simp
next
  case (Cons t ts)
  have "filter (\<lambda>t. empId t \<noteq> e) (resolve_step e s en ex t) = filter (\<lambda>t. empId t \<noteq> e) [t]"
    by (rule filter_other_resolve_step)
  with Cons show ?case by simp
qed

text \<open>
  Claim C1. \<open>resolveOverlaps\<close> rewrites the store task by task. A task of another
  employee, or the task whose id is \<open>exceptId\<close>, is kept as it is. Every other task of the
  employee is classified by its relation to \<open>[s, en)\<close>: kept unchanged when it does not
  overlap the range (\<open>end \<le> s\<close> or \<open>start \<ge> en\<close>); and, when it overlaps, removed if the
  range covers it, trimmed to \<open>end = s\<close> if it overlaps on the left only, trimmed to
  \<open>start = en\<close> if it overlaps on the right only, and replaced by two copies, one ending at
  \<open>s\<close> and one starting at \<open>en\<close>, both with the original id, kind and label, if it
  straddles the range.
\<close>

theorem resolveOverlaps_classification:
  "resolveOverlaps e s en ex prev = concat (map (resolve_step e s en ex) prev) \<and>
   (empId t \<noteq> e \<or> Some (tid t) = ex \<longrightarrow> resolve_step e s en ex t = [t]) \<and>
   (empId t = e \<and> Some (tid t) \<noteq> ex \<longrightarrow>
      (tend t \<le> s \<or> start t \<ge> en \<longrightarrow> resolve_step e s en ex t = [t]) \<and>
      (s < tend t \<and> start t < en \<longrightarrow>
         (start t \<ge> s \<and> tend t \<le> en \<longrightarrow> resolve_step e s en ex t = []) \<and>
         (start t < s \<and> tend t \<le> en \<longrightarrow> resolve_step e s en ex t = [t\<lparr>tend := s\<rparr>]) \<and>
         (start t \<ge> s \<and> tend t > en \<longrightarrow> resolve_step e s en ex t = [t\<lparr>start := en\<rparr>]) \<and>
         (start t < s \<and> tend t > en \<longrightarrow>
            resolve_step e s en ex t =
              [\<lparr>tid = tid t, empId = empId t, ttype = ttype t, label = label t,
                start = start t, tend = s\<rparr>,
               \<lparr>tid = tid t, empId = empId t, ttype = ttype t, label = label t,
                start = en, tend = tend t\<rparr>])))"
  by (auto simp: resolveOverlaps_concat resolve_step_def)

theorem resolveOverlaps_classification_witness:
  "resolveOverlaps ''e_john'' 2 4 None
     [\<lparr>tid = ''t_1'', empId = ''e_john'', ttype = Front, label = ''Front Desk'', start = 0, tend = 1\<rparr>,
      \<lparr>tid = ''t_2'', empId = ''e_john'', ttype = Gallery, label = ''Gallery'', start = 2, tend = 3\<rparr>,
      \<lparr>tid = ''t_3'', empId = ''e_john'', ttype = Break, label = ''Break'', start = 1, tend = 3\<rparr>,
      \<lparr>tid = ''t_4'', empId = ''e_john'', ttype = Prep, label = ''Prep'', start = 3, tend = 5\<rparr>,
      \<lparr>tid = ''t_5'', empId = ''e_john'', ttype = Tour, label = ''Public Tour'', start = 0, tend = 6\<rparr>,
      \<lparr>tid = ''t_6'', empId = ''e_mary'', ttype = Tidy, label = ''Finish'', start = 0, tend = 6\<rparr>]
   = [\<lparr>tid = ''t_1'', empId = ''e_john'', ttype = Front, label = ''Front Desk'', start = 0, tend = 1\<rparr>,
      \<lparr>tid = ''t_3'', empId = ''e_john'', ttype = Break, label = ''Break'', start = 1, tend = 2\<rparr>,
      \<lparr>tid = ''t_4'', empId = ''e_john'', ttype = Prep, label = ''Prep'', start = 4, tend = 5\<rparr>,
      \<lparr>tid = ''t_5'', empId = ''e_john'', ttype = Tour, label = ''Public Tour'', start = 0, tend = 2\<rparr>,
      \<lparr>tid = ''t_5'', empId = ''e_john'', ttype = Tour, label = ''Public Tour'', start = 4, tend = 6\<rparr>,
      \<lparr>tid = ''t_6'', empId = ''e_mary'', ttype = Tidy, label = ''Finish'', start = 0, tend = 6\<rparr>]"
  using
    resolveOverlaps_classification [where e = "''e_john''" and s = 2 and en = 4 and ex = None
      and t = "\<lparr>tid = ''t_1'', empId = ''e_john'', ttype = Front, label = ''Front Desk'', start = 0, tend = 1\<rparr>"]
    resolveOverlaps_classification [where e = "''e_john''" and s = 2 and en = 4 and ex = None
      and t = "\<lparr>tid = ''t_2'', empId = ''e_john'', ttype = Gallery, label = ''Gallery'', start = 2, tend = 3\<rparr>"]
    resolveOverlaps_classification [where e = "''e_john''" and s = 2 and en = 4 and ex = None
      and t = "\<lparr>tid = ''t_3'', empId = ''e_john'', ttype = Break, label = ''Break'', start = 1, tend = 3\<rparr>"]
    resolveOverlaps_classification [where e = "''e_john''" and s = 2 and en = 4 and ex = None
      and t = "\<lparr>tid = ''t_4'', empId = ''e_john'', ttype = Prep, label = ''Prep'', start = 3, tend = 5\<rparr>"]
    resolveOverlaps_classification [where e = "''e_john''" and s = 2 and en = 4 and ex = None
      and t = "\<lparr>tid = ''t_5'', empId = ''e_john'', ttype = Tour, label = ''Public Tour'', start = 0, tend = 6\<rparr>"]
    resolveOverlaps_classification [where e = "''e_john''" and s = 2 and en = 4 and ex = None
      and t = "\<lparr>tid = ''t_6'', empId = ''e_mary'', ttype = Tidy, label = ''Finish'', start = 0, tend = 6\<rparr>"]
  by simp

section \<open>The compactor as a walk with a last kept task\<close>

lemma spec_mergeable_sameKind: "spec_mergeable l t = sameKind l t"
  by (auto simp: spec_mergeable_def sameKind_def isTourLike_def)

lemma merge_step_empId:
  "\<forall>u\<in>set keep. empId u = e \<Longrightarrow> empId t = e \<Longrightarrow> \<forall>u\<in>set (merge_step keep t). empId u = e"
  by (auto simp: merge_step_def dest: in_set_butlastD)

lemma foldl_merge_step_empId:
  "\<forall>u\<in>set keep. empId u = e \<Longrightarrow> \<forall>t\<in>set ts. empId t = e
   \<Longrightarrow> \<forall>u\<in>set (foldl merge_step keep ts). empId u = e"
proof (induction ts arbitrary: keep)
  case Nil
  then show ?case by simp
next
  case (Cons t ts)
  from Cons.prems have "\<forall>u\<in>set (merge_step keep t). empId u = e"
    by (intro merge_step_empId) simp_all
  with Cons show ?case by simp
qed

lemma foldl_merge_step_walk:
  "foldl merge_step (ks @ [l]) ts = ks @ spec_walk l ts"
proof (induction ts arbitrary: ks l)
  case Nil
  show ?case by simp
next
  case (Cons t ts)
  show ?case
  proof (cases "sameKind l t")
    case True
    then have "merge_step (ks @ [l]) t = ks @ [l\<lparr>tend := tend t\<rparr>]"
      by (simp add: merge_step_def)
    with True Cons.IH [of ks "l\<lparr>tend := tend t\<rparr>"] show ?thesis
      by (simp add: spec_mergeable_sameKind)
  next
    case False
    then have "merge_step (ks @ [l]) t = (ks @ [l]) @ [t]"
      by (simp add: merge_step_def)
    with False Cons.IH [of "ks @ [l]" t] show ?thesis
      by (simp add: spec_mergeable_sameKind)
  qed
qed

lemma foldl_merge_step_compact: "foldl merge_step [] ts = spec_compact ts"
proof (cases ts)
  case Nil
  then show ?thesis by simp
next
  case (Cons t ts')
  have "merge_step [] t = [] @ [t]" by (simp add: merge_step_def)
  then show ?thesis using foldl_merge_step_walk [of "[]" t ts'] Cons by simp
qed

lemma mergeAdjacent_spec: "mergeAdjacent e prev = spec_mergeAdjacent e prev"
  by (simp add: mergeAdjacent_def spec_mergeAdjacent_def foldl_merge_step_compact)

lemma spec_walk_empId:
  "empId l = e \<Longrightarrow> \<forall>t\<in>set ts. empId t = e \<Longrightarrow> u \<in> set (spec_walk l ts) \<Longrightarrow> empId u = e"
proof (induction l ts rule: spec_walk.induct)
  case (1 l)
  then show ?case by simp
next
  case (2 l t ts)
  show ?case
  proof (cases "spec_mergeable l t")
    case True
    with 2 show ?thesis by simp
  next
    case False
    with "2.prems" have "u = l \<or> u \<in> set (spec_walk t ts)" by simp
    then show ?thesis
    proof
      assume "u = l" with "2.prems" show ?thesis by simp
    next
      assume "u \<in> set (spec_walk t ts)"
      with False "2.IH"(2) "2.prems" show ?thesis by simp
    qed
  qed
qed

lemma spec_compact_empId:
  "\<forall>t\<in>set ts. empId t = e \<Longrightarrow> \<forall>u\<in>set (spec_compact ts). empId u = e"
proof (cases ts)
  case Nil
  then show ?thesis by simp
next
  case (Cons t ts')
  assume "\<forall>t\<in>set ts. empId t = e"
  with Cons have "empId t = e" and "\<forall>t\<in>set ts'. empId t = e" by simp_all
  then have "\<And>u. u \<in> set (spec_walk t ts') \<Longrightarrow> empId u = e"
    by (rule spec_walk_empId)
  with Cons show ?thesis by simp
qed

lemma filter_other_compact:
  "filter (\<lambda>t. empId t \<noteq> e) (spec_compact (sort_key start (filter (\<lambda>t. empId t = e) prev))) = []"
proof -
  have "\<forall>u\<in>set (spec_compact (sort_key start (filter (\<lambda>t. empId t = e) prev))). empId u = e"
    by (rule spec_compact_empId) simp
  then show ?thesis
    unfolding filter_empty_conv by blast
qed

lemma filter_same_compact:
  "filter (\<lambda>t. empId t = e) (spec_compact (sort_key start (filter (\<lambda>t. empId t = e) prev)))
     = spec_compact (sort_key start (filter (\<lambda>t. empId t = e) prev))"
proof -
  have "\<forall>u\<in>set (spec_compact (sort_key start (filter (\<lambda>t. empId t = e) prev))). empId u = e"
    by (rule spec_compact_empId) simp
  then show ?thesis
    unfolding filter_id_conv by blast
qed

lemma filter_other_mergeAdjacent:
  "filter (\<lambda>t. empId t \<noteq> e) (mergeAdjacent e prev) = filter (\<lambda>t. empId t \<noteq> e) prev"
  unfolding mergeAdjacent_spec spec_mergeAdjacent_def filter_append filter_other_compact
  by simp

lemma filter_same_mergeAdjacent:
  "filter (\<lambda>t. empId t = e) (mergeAdjacent e prev)
     = spec_compact (sort_key start (filter (\<lambda>t. empId t = e) prev))"
  unfolding mergeAdjacent_spec spec_mergeAdjacent_def filter_append filter_same_compact
  by simp

section \<open>Frame: other employees\<close>

text \<open>
  Claim C8. \<open>resolveOverlaps e\<close> and \<open>mergeAdjacent e\<close> leave the tasks of every other
  employee as they are: the list of the tasks whose \<open>empId\<close> differs from \<open>e\<close> is the same
  before and after, with every field of every task, and so is their multiset.
\<close>

theorem other_employees_untouched:
  "filter (\<lambda>t. empId t \<noteq> e) (resolveOverlaps e s en ex prev) = filter (\<lambda>t. empId t \<noteq> e) prev \<and>
   filter (\<lambda>t. empId t \<noteq> e) (mergeAdjacent e prev) = filter (\<lambda>t. empId t \<noteq> e) prev \<and>
   filter_mset (\<lambda>t. empId t \<noteq> e) (mset (resolveOverlaps e s en ex prev))
     = filter_mset (\<lambda>t. empId t \<noteq> e) (mset prev) \<and>
   filter_mset (\<lambda>t. empId t \<noteq> e) (mset (mergeAdjacent e prev))
     = filter_mset (\<lambda>t. empId t \<noteq> e) (mset prev)"
proof -
  have r: "filter (\<lambda>t. empId t \<noteq> e) (resolveOverlaps e s en ex prev) = filter (\<lambda>t. empId t \<noteq> e) prev"
    by (rule filter_other_resolveOverlaps)
  have m: "filter (\<lambda>t. empId t \<noteq> e) (mergeAdjacent e prev) = filter (\<lambda>t. empId t \<noteq> e) prev"
    by (rule filter_other_mergeAdjacent)
  have "filter_mset (\<lambda>t. empId t \<noteq> e) (mset (resolveOverlaps e s en ex prev))
          = filter_mset (\<lambda>t. empId t \<noteq> e) (mset prev)"
    by (metis r mset_filter)
  moreover have "filter_mset (\<lambda>t. empId t \<noteq> e) (mset (mergeAdjacent e prev))
          = filter_mset (\<lambda>t. empId t \<noteq> e) (mset prev)"
    by (metis m mset_filter)
  ultimately show ?thesis
    using r m by blast
qed

theorem other_employees_untouched_witness:
  "filter (\<lambda>t. empId t \<noteq> ''e_john'') (resolveOverlaps ''e_john'' 2 4 None
     [\<lparr>tid = ''t_1'', empId = ''e_john'', ttype = Front, label = ''Front Desk'', start = 0, tend = 1\<rparr>,
      \<lparr>tid = ''t_2'', empId = ''e_john'', ttype = Gallery, label = ''Gallery'', start = 2, tend = 3\<rparr>,
      \<lparr>tid = ''t_3'', empId = ''e_john'', ttype = Break, label = ''Break'', start = 1, tend = 3\<rparr>,
      \<lparr>tid = ''t_4'', empId = ''e_john'', ttype = Prep, label = ''Prep'', start = 3, tend = 5\<rparr>,
      \<lparr>tid = ''t_5'', empId = ''e_john'', ttype = Tour, label = ''Public Tour'', start = 0, tend = 6\<rparr>,
      \<lparr>tid = ''t_6'', empId = ''e_mary'', ttype = Tidy, label = ''Finish'', start = 0, tend = 6\<rparr>])
   = [\<lparr>tid = ''t_6'', empId = ''e_mary'', ttype = Tidy, label = ''Finish'', start = 0, tend = 6\<rparr>] \<and>
   filter (\<lambda>t. empId t \<noteq> ''e_john'') (mergeAdjacent ''e_john''
     [\<lparr>tid = ''t_1'', empId = ''e_john'', ttype = Front, label = ''Front Desk'', start = 0, tend = 1\<rparr>,
      \<lparr>tid = ''t_2'', empId = ''e_john'', ttype = Gallery, label = ''Gallery'', start = 2, tend = 3\<rparr>,
      \<lparr>tid = ''t_3'', empId = ''e_john'', ttype = Break, label = ''Break'', start = 1, tend = 3\<rparr>,
      \<lparr>tid = ''t_4'', empId = ''e_john'', ttype = Prep, label = ''Prep'', start = 3, tend = 5\<rparr>,
      \<lparr>tid = ''t_5'', empId = ''e_john'', ttype = Tour, label = ''Public Tour'', start = 0, tend = 6\<rparr>,
      \<lparr>tid = ''t_6'', empId = ''e_mary'', ttype = Tidy, label = ''Finish'', start = 0, tend = 6\<rparr>])
   = [\<lparr>tid = ''t_6'', empId = ''e_mary'', ttype = Tidy, label = ''Finish'', start = 0, tend = 6\<rparr>]"
  using other_employees_untouched [where e = "''e_john''" and s = 2 and en = 4 and ex = None
    and prev = "[\<lparr>tid = ''t_1'', empId = ''e_john'', ttype = Front, label = ''Front Desk'', start = 0, tend = 1\<rparr>,
      \<lparr>tid = ''t_2'', empId = ''e_john'', ttype = Gallery, label = ''Gallery'', start = 2, tend = 3\<rparr>,
      \<lparr>tid = ''t_3'', empId = ''e_john'', ttype = Break, label = ''Break'', start = 1, tend = 3\<rparr>,
      \<lparr>tid = ''t_4'', empId = ''e_john'', ttype = Prep, label = ''Prep'', start = 3, tend = 5\<rparr>,
      \<lparr>tid = ''t_5'', empId = ''e_john'', ttype = Tour, label = ''Public Tour'', start = 0, tend = 6\<rparr>,
      \<lparr>tid = ''t_6'', empId = ''e_mary'', ttype = Tidy, label = ''Finish'', start = 0, tend = 6\<rparr>]"]
  by simp

section \<open>Idempotence\<close>

lemma resolve_step_fixed:
  "u \<in> set (resolve_step e s en ex t) \<Longrightarrow> resolve_step e s en ex u = [u]"
  by (auto simp: resolve_step_def split: if_splits)

lemma resolveOverlaps_fixed:
  "\<forall>u\<in>set us. resolve_step e s en ex u = [u] \<Longrightarrow> resolveOverlaps e s en ex us = us"
  by (induction us) simp_all

lemma resolveOverlaps_idem:
  "resolveOverlaps e s en ex (resolveOverlaps e s en ex prev) = resolveOverlaps e s en ex prev"
proof (induction prev)
  case Nil
  show ?case by simp
next
  case (Cons t ts)
  have "resolveOverlaps e s en ex (resolve_step e s en ex t) = resolve_step e s en ex t"
    by (rule resolveOverlaps_fixed) (simp add: resolve_step_fixed)
  with Cons show ?case by simp
qed

lemma spec_walk_starts:
  "u \<in> set (spec_walk l ts) \<Longrightarrow> start u \<in> start ` set (l # ts)"
proof (induction l ts rule: spec_walk.induct)
  case (1 l)
  then show ?case by simp
next
  case (2 l t ts)
  show ?case
  proof (cases "spec_mergeable l t")
    case True
    with "2.prems" have "u \<in> set (spec_walk (l\<lparr>tend := tend t\<rparr>) ts)" by simp
    with True "2.IH"(1) have "start u \<in> start ` set (l\<lparr>tend := tend t\<rparr> # ts)" by blast
    then show ?thesis by auto
  next
    case False
    with "2.prems" have "u = l \<or> u \<in> set (spec_walk t ts)" by simp
    with False "2.IH"(2) show ?thesis by auto
  qed
qed

lemma sorted_starts_spec_walk:
  "sorted (map start (l # ts)) \<Longrightarrow> sorted (map start (spec_walk l ts))"
proof (induction l ts rule: spec_walk.induct)
  case (1 l)
  show ?case by simp
next
  case (2 l t ts)
  show ?case
  proof (cases "spec_mergeable l t")
    case True
    from "2.prems" have "sorted (map start (l\<lparr>tend := tend t\<rparr> # ts))" by auto
    with True "2.IH"(1) show ?thesis by simp
  next
    case False
    from "2.prems" have st: "sorted (map start (t # ts))" by simp
    have "\<forall>u\<in>set (spec_walk t ts). start l \<le> start u"
    proof
      fix u assume "u \<in> set (spec_walk t ts)"
      then have "start u \<in> start ` set (t # ts)" by (rule spec_walk_starts)
      with "2.prems" show "start l \<le> start u" by auto
    qed
    with False "2.IH"(2) st show ?thesis by simp
  qed
qed

lemma sorted_starts_spec_compact:
  "sorted (map start ts) \<Longrightarrow> sorted (map start (spec_compact ts))"
  by (cases ts) (simp_all add: sorted_starts_spec_walk del: sorted_wrt.simps)

lemma spec_walk_head:
  "\<exists>x xs. spec_walk l ts = x # xs \<and> start x = start l \<and> ttype x = ttype l \<and> label x = label l"
  by (induction l ts rule: spec_walk.induct) auto

lemma unmerged_spec_walk: "unmerged (spec_walk l ts)"
proof (induction l ts rule: spec_walk.induct)
  case (1 l)
  show ?case by simp
next
  case (2 l t ts)
  show ?case
  proof (cases "spec_mergeable l t")
    case True
    with "2.IH"(1) show ?thesis by simp
  next
    case False
    obtain x xs where x: "spec_walk t ts = x # xs" "start x = start t" "ttype x = ttype t" "label x = label t"
      using spec_walk_head [of t ts] by blast
    from False x have "\<not> spec_mergeable l x"
      by (simp add: spec_mergeable_def)
    with False "2.IH"(2) x show ?thesis by simp
  qed
qed

lemma spec_walk_unmerged: "unmerged (l # ts) \<Longrightarrow> spec_walk l ts = l # ts"
  by (induction ts arbitrary: l) simp_all

lemma spec_compact_idem: "spec_compact (spec_compact ts) = spec_compact ts"
proof (cases ts)
  case Nil
  then show ?thesis by simp
next
  case (Cons t ts')
  obtain x xs where x: "spec_walk t ts' = x # xs"
    using spec_walk_head [of t ts'] by blast
  have "unmerged (x # xs)" using unmerged_spec_walk [of t ts'] x by simp
  then have "spec_walk x xs = x # xs" by (rule spec_walk_unmerged)
  with Cons x show ?thesis by simp
qed

lemma mergeAdjacent_idem: "mergeAdjacent e (mergeAdjacent e prev) = mergeAdjacent e prev"
proof -
  let ?K = "spec_compact (sort_key start (filter (\<lambda>t. empId t = e) prev))"
  have same: "filter (\<lambda>t. empId t = e) (mergeAdjacent e prev) = ?K"
    by (rule filter_same_mergeAdjacent)
  have other: "filter (\<lambda>t. empId t \<noteq> e) (mergeAdjacent e prev) = filter (\<lambda>t. empId t \<noteq> e) prev"
    by (rule filter_other_mergeAdjacent)
  have "sorted (map start ?K)"
    by (rule sorted_starts_spec_compact) simp
  then have "sort_key start ?K = ?K"
    by (rule sort_key_id_if_sorted)
  then have "spec_compact (sort_key start ?K) = ?K"
    by (simp only: spec_compact_idem)
  then have "spec_mergeAdjacent e (mergeAdjacent e prev) = filter (\<lambda>t. empId t \<noteq> e) prev @ ?K"
    unfolding spec_mergeAdjacent_def same other by simp
  then show ?thesis
    unfolding mergeAdjacent_spec by (simp add: spec_mergeAdjacent_def)
qed

text \<open>
  Claim C6. Running \<open>resolveOverlaps\<close> twice with the same arguments gives the same store
  as running it once, and running \<open>mergeAdjacent\<close> twice for the same employee gives the
  same store as running it once; both as equalities of the whole task list, for every
  store and all arguments.
\<close>

theorem resolve_merge_idempotent:
  "resolveOverlaps e s en ex (resolveOverlaps e s en ex prev) = resolveOverlaps e s en ex prev \<and>
   mergeAdjacent e (mergeAdjacent e prev) = mergeAdjacent e prev"
  using resolveOverlaps_idem mergeAdjacent_idem by blast

theorem resolve_merge_idempotent_witness:
  "resolveOverlaps ''e_john'' 2 4 None (resolveOverlaps ''e_john'' 2 4 None
     [\<lparr>tid = ''t_1'', empId = ''e_john'', ttype = Gallery, label = ''Gallery'', start = 0, tend = 6\<rparr>])
   = [\<lparr>tid = ''t_1'', empId = ''e_john'', ttype = Gallery, label = ''Gallery'', start = 0, tend = 2\<rparr>,
      \<lparr>tid = ''t_1'', empId = ''e_john'', ttype = Gallery, label = ''Gallery'', start = 4, tend = 6\<rparr>] \<and>
   mergeAdjacent ''e_john'' (mergeAdjacent ''e_john''
     [\<lparr>tid = ''t_2'', empId = ''e_john'', ttype = Gallery, label = ''Gallery'', start = 2, tend = 3\<rparr>,
      \<lparr>tid = ''t_1'', empId = ''e_john'', ttype = Gallery, label = ''Gallery'', start = 1, tend = 2\<rparr>])
   = [\<lparr>tid = ''t_1'', empId = ''e_john'', ttype = Gallery, label = ''Gallery'', start = 1, tend = 3\<rparr>]"
  using resolve_merge_idempotent [where e = "''e_john''" and s = 2 and en = 4 and ex = None
    and prev = "[\<lparr>tid = ''t_1'', empId = ''e_john'', ttype = Gallery, label = ''Gallery'', start = 0, tend = 6\<rparr>]"]
   resolve_merge_idempotent [where e = "''e_john''"
    and prev = "[\<lparr>tid = ''t_2'', empId = ''e_john'', ttype = Gallery, label = ''Gallery'', start = 2, tend = 3\<rparr>,
      \<lparr>tid = ''t_1'', empId = ''e_john'', ttype = Gallery, label = ''Gallery'', start = 1, tend = 2\<rparr>]"]
  by (simp add: resolve_step_def mergeAdjacent_def merge_step_def sameKind_def isTourLike_def)

section \<open>Tour-like tasks\<close>

lemma tour_filter_spec_walk:
  "filter (\<lambda>t. isTourLike (ttype t)) (spec_walk l ts) = filter (\<lambda>t. isTourLike (ttype t)) (l # ts)"
proof (induction l ts rule: spec_walk.induct)
  case (1 l)
  show ?case by simp
next
  case (2 l t ts)
  show ?case
  proof (cases "spec_mergeable l t")
    case True
    then have "\<not> isTourLike (ttype l)" and "\<not> isTourLike (ttype t)"
      by (simp_all add: spec_mergeable_def isTourLike_def)
    with True "2.IH"(1) show ?thesis by simp
  next
    case False
    with "2.IH"(2) show ?thesis by simp
  qed
qed

lemma tour_filter_spec_compact:
  "filter (\<lambda>t. isTourLike (ttype t)) (spec_compact ts) = filter (\<lambda>t. isTourLike (ttype t)) ts"
  by (cases ts) (simp_all only: spec_compact.simps tour_filter_spec_walk filter.simps)

lemma filter_mset_by_employee:
  "filter_mset P (filter_mset (\<lambda>t. empId t \<noteq> e) M) + filter_mset P (filter_mset (\<lambda>t. empId t = e) M)
     = filter_mset P M"
  by (rule multiset_eqI) simp

lemma tour_mset_mergeAdjacent:
  "mset (filter (\<lambda>t. isTourLike (ttype t)) (mergeAdjacent e prev))
     = mset (filter (\<lambda>t. isTourLike (ttype t)) prev)"
proof -
  let ?T = "\<lambda>t. isTourLike (ttype t)"
  have "mset (filter ?T (mergeAdjacent e prev))
      = filter_mset ?T (filter_mset (\<lambda>t. empId t \<noteq> e) (mset prev))
        + filter_mset ?T (filter_mset (\<lambda>t. empId t = e) (mset prev))"
    unfolding mergeAdjacent_spec spec_mergeAdjacent_def filter_append tour_filter_spec_compact
    by (simp only: mset_append mset_filter mset_sort)
  also have "\<dots> = filter_mset ?T (mset prev)"
    by (rule filter_mset_by_employee)
  finally show ?thesis
    by (simp only: mset_filter)
qed

lemma tasks_addTaskAt:
  "tasks (addTaskAt e row ty st) =
     (let placed = resolveOverlaps e row (row + 1) None (tasks st) @
                     [\<lparr>tid = fst (uid st), empId = e, ttype = ty, label = TYPE_LABEL ty,
                       start = row, tend = row + 1\<rparr>]
      in if isTourLike ty then placed else mergeAdjacent e placed)"
  by (simp add: addTaskAt_def uid_def Let_def)

text \<open>
  Claim C5. The tour-like kinds are exactly \<open>tour\<close> and \<open>school-program\<close>. The walk never
  merges a tour-like task into the last kept task, nor any task into a tour-like last kept
  task, whatever their labels and ranges; so \<open>mergeAdjacent\<close> keeps every tour-like task of
  the store as it is (the multiset of tour-like tasks is unchanged). \<open>addTaskAt\<close> runs
  \<open>mergeAdjacent\<close> on the store with the new task exactly when the kind of the new task
  is not tour-like.
\<close>

theorem tour_like_locked:
  "(isTourLike k \<longleftrightarrow> k = Tour \<or> k = SchoolProgram) \<and>
   (isTourLike (ttype t) \<or> (keep \<noteq> [] \<and> isTourLike (ttype (last keep)))
      \<longrightarrow> merge_step keep t = keep @ [t]) \<and>
   mset (filter (\<lambda>t. isTourLike (ttype t)) (mergeAdjacent e prev))
     = mset (filter (\<lambda>t. isTourLike (ttype t)) prev) \<and>
   tasks (addTaskAt e row ty st) =
     (let placed = resolveOverlaps e row (row + 1) None (tasks st) @
                     [\<lparr>tid = fst (uid st), empId = e, ttype = ty, label = TYPE_LABEL ty,
                       start = row, tend = row + 1\<rparr>]
      in if isTourLike ty then placed else mergeAdjacent e placed)"
proof -
  have a: "isTourLike k \<longleftrightarrow> k = Tour \<or> k = SchoolProgram"
    by (simp add: isTourLike_def)
  have b: "isTourLike (ttype t) \<or> (keep \<noteq> [] \<and> isTourLike (ttype (last keep)))
      \<longrightarrow> merge_step keep t = keep @ [t]"
    by (auto simp: merge_step_def sameKind_def)
  from a b tour_mset_mergeAdjacent [of e prev] tasks_addTaskAt [of e row ty st]
  show ?thesis by blast
qed

theorem tour_like_locked_witness:
  "mergeAdjacent ''e_john''
     [\<lparr>tid = ''t_1'', empId = ''e_john'', ttype = Tour, label = ''Public Tour'', start = 1, tend = 2\<rparr>,
      \<lparr>tid = ''t_2'', empId = ''e_john'', ttype = Tour, label = ''Public Tour'', start = 2, tend = 3\<rparr>]
   = [\<lparr>tid = ''t_1'', empId = ''e_john'', ttype = Tour, label = ''Public Tour'', start = 1, tend = 2\<rparr>,
      \<lparr>tid = ''t_2'', empId = ''e_john'', ttype = Tour, label = ''Public Tour'', start = 2, tend = 3\<rparr>] \<and>
   tasks (addTaskAt ''e_john'' 3 Tour
     (initial_state\<lparr>tasks :=
       [\<lparr>tid = ''t_1'', empId = ''e_john'', ttype = Tour, label = ''Public Tour'', start = 1, tend = 2\<rparr>,
        \<lparr>tid = ''t_2'', empId = ''e_john'', ttype = Tour, label = ''Public Tour'', start = 2, tend = 3\<rparr>]\<rparr>))
   = [\<lparr>tid = ''t_1'', empId = ''e_john'', ttype = Tour, label = ''Public Tour'', start = 1, tend = 2\<rparr>,
      \<lparr>tid = ''t_2'', empId = ''e_john'', ttype = Tour, label = ''Public Tour'', start = 2, tend = 3\<rparr>,
      \<lparr>tid = ''t_3'', empId = ''e_john'', ttype = Tour, label = ''Public Tour'', start = 3, tend = 4\<rparr>]"
proof -
  let ?a = "\<lparr>tid = ''t_1'', empId = ''e_john'', ttype = Tour, label = ''Public Tour'', start = 1, tend = 2\<rparr>"
  let ?b = "\<lparr>tid = ''t_2'', empId = ''e_john'', ttype = Tour, label = ''Public Tour'', start = 2, tend = 3\<rparr>"
  have step: "merge_step [?a] ?b = [?a] @ [?b]"
    using tour_like_locked [where t = ?b and keep = "[?a]"] by simp
  have m: "mergeAdjacent ''e_john'' [?a, ?b] = [?a, ?b]"
    using step by (simp add: mergeAdjacent_def merge_step_def)
  have p: "tasks (addTaskAt ''e_john'' 3 Tour (initial_state\<lparr>tasks := [?a, ?b]\<rparr>))
             = [?a, ?b, \<lparr>tid = ''t_3'', empId = ''e_john'', ttype = Tour, label = ''Public Tour'', start = 3, tend = 4\<rparr>]"
    using tour_like_locked [where ty = Tour and e = "''e_john''" and row = 3
        and st = "initial_state\<lparr>tasks := [?a, ?b]\<rparr>" and k = Tour]
    by (simp add: initial_state_def uid_def resolve_step_def digit_char_def)
  from m p show ?thesis by simp
qed

section \<open>The compactor step\<close>

lemma merge_step_iff:
  "keep \<noteq> [] \<Longrightarrow>
     (merge_step keep t = butlast keep @ [(last keep)\<lparr>tend := tend t\<rparr>]) = sameKind (last keep) t"
proof (cases "sameKind (last keep) t")
  case True
  assume "keep \<noteq> []"
  with True show ?thesis by (simp add: merge_step_def)
next
  case False
  assume "keep \<noteq> []"
  then have "length (butlast keep @ [(last keep)\<lparr>tend := tend t\<rparr>]) \<noteq> length (keep @ [t])"
    by simp
  then have "keep @ [t] \<noteq> butlast keep @ [(last keep)\<lparr>tend := tend t\<rparr>]"
    by metis
  with False show ?thesis by (simp add: merge_step_def)
qed

lemma sorted_starts_mergeAdjacent:
  "sorted (map start (filter (\<lambda>t. empId t = e) (mergeAdjacent e prev)))"
  unfolding filter_same_mergeAdjacent
  by (rule sorted_starts_spec_compact) simp

text \<open>
  Claim C4. \<open>mergeAdjacent e\<close> is the walk of the specification over the tasks of the
  employee sorted by start, placed after the tasks of the other employees. A step of the
  loop merges the task into the last kept one, by overwriting its end, if and only if both
  have the same kind and the same label, the last kept task ends where the task starts,
  and neither is tour-like; in every other case the task is appended. The tasks of the
  employee come out ordered by start.
\<close>

theorem mergeAdjacent_walk:
  "mergeAdjacent e prev = spec_mergeAdjacent e prev \<and>
   sorted (map start (filter (\<lambda>t. empId t = e) (mergeAdjacent e prev))) \<and>
   (keep \<noteq> [] \<longrightarrow>
      (merge_step keep t = butlast keep @ [(last keep)\<lparr>tend := tend t\<rparr>]) =
      (ttype (last keep) = ttype t \<and> label (last keep) = label t \<and>
       tend (last keep) = start t \<and>
       \<not> isTourLike (ttype t) \<and> \<not> isTourLike (ttype (last keep)))) \<and>
   (merge_step keep t = butlast keep @ [(last keep)\<lparr>tend := tend t\<rparr>] \<or>
    merge_step keep t = keep @ [t])"
proof -
  have "merge_step keep t = butlast keep @ [(last keep)\<lparr>tend := tend t\<rparr>] \<or>
        merge_step keep t = keep @ [t]"
    by (simp add: merge_step_def)
  moreover have "keep \<noteq> [] \<longrightarrow>
      (merge_step keep t = butlast keep @ [(last keep)\<lparr>tend := tend t\<rparr>]) =
      (ttype (last keep) = ttype t \<and> label (last keep) = label t \<and>
       tend (last keep) = start t \<and>
       \<not> isTourLike (ttype t) \<and> \<not> isTourLike (ttype (last keep)))"
    using merge_step_iff [of keep t] by (simp add: sameKind_def)
  ultimately show ?thesis
    using mergeAdjacent_spec [of e prev] sorted_starts_mergeAdjacent [of e prev] by blast
qed

theorem mergeAdjacent_walk_witness:
  "mergeAdjacent ''e_john''
     [\<lparr>tid = ''t_2'', empId = ''e_john'', ttype = Gallery, label = ''Gallery'', start = 2, tend = 3\<rparr>,
      \<lparr>tid = ''t_4'', empId = ''e_mary'', ttype = Gallery, label = ''Gallery'', start = 3, tend = 4\<rparr>,
      \<lparr>tid = ''t_3'', empId = ''e_john'', ttype = Front, label = ''Front Desk'', start = 3, tend = 4\<rparr>,
      \<lparr>tid = ''t_1'', empId = ''e_john'', ttype = Gallery, label = ''Gallery'', start = 1, tend = 2\<rparr>]
   = [\<lparr>tid = ''t_4'', empId = ''e_mary'', ttype = Gallery, label = ''Gallery'', start = 3, tend = 4\<rparr>,
      \<lparr>tid = ''t_1'', empId = ''e_john'', ttype = Gallery, label = ''Gallery'', start = 1, tend = 3\<rparr>,
      \<lparr>tid = ''t_3'', empId = ''e_john'', ttype = Front, label = ''Front Desk'', start = 3, tend = 4\<rparr>] \<and>
   merge_step
     [\<lparr>tid = ''t_1'', empId = ''e_john'', ttype = Gallery, label = ''Gallery'', start = 1, tend = 2\<rparr>]
     \<lparr>tid = ''t_2'', empId = ''e_john'', ttype = Gallery, label = ''Gallery'', start = 2, tend = 3\<rparr>
   = [\<lparr>tid = ''t_1'', empId = ''e_john'', ttype = Gallery, label = ''Gallery'', start = 1, tend = 3\<rparr>]"
  using mergeAdjacent_walk [where e = "''e_john''"
    and prev = "[\<lparr>tid = ''t_2'', empId = ''e_john'', ttype = Gallery, label = ''Gallery'', start = 2, tend = 3\<rparr>,
      \<lparr>tid = ''t_4'', empId = ''e_mary'', ttype = Gallery, label = ''Gallery'', start = 3, tend = 4\<rparr>,
      \<lparr>tid = ''t_3'', empId = ''e_john'', ttype = Front, label = ''Front Desk'', start = 3, tend = 4\<rparr>,
      \<lparr>tid = ''t_1'', empId = ''e_john'', ttype = Gallery, label = ''Gallery'', start = 1, tend = 2\<rparr>]"
    and keep = "[\<lparr>tid = ''t_1'', empId = ''e_john'', ttype = Gallery, label = ''Gallery'', start = 1, tend = 2\<rparr>]"
    and t = "\<lparr>tid = ''t_2'', empId = ''e_john'', ttype = Gallery, label = ''Gallery'', start = 2, tend = 3\<rparr>"]
  by (simp add: spec_mergeAdjacent_def spec_mergeable_def isTourLike_def)

section \<open>Ids after a split\<close>

lemma resolve_step_in_resolveOverlaps:
  "t \<in> set prev \<Longrightarrow> u \<in> set (resolve_step e s en ex t) \<Longrightarrow> u \<in> set (resolveOverlaps e s en ex prev)"
  by (auto simp: resolveOverlaps_concat)

lemma not_distinct_resolve_straddle:
  assumes "t \<in> set prev" and "resolve_step e s en ex t = [a, b]" and "tid a = tid b"
  shows "\<not> distinct (map tid (resolveOverlaps e s en ex prev))"
proof -
  from assms(1) obtain xs ys where "prev = xs @ t # ys"
    by (auto simp: in_set_conv_decomp)
  with assms(2,3) show ?thesis by simp
qed

text \<open>
  Claim C9. A task of the employee that straddles the range (\<open>start < s < en < end\<close>) is
  replaced by two different tasks that both carry its id, so the ids of the resulting
  store are not distinct; and the keyboard deletion of the selected id, which filters the
  store by id, removes both fragments at once.
\<close>

theorem split_fragments_share_id:
  assumes "t \<in> set prev" and "empId t = e" and "Some (tid t) \<noteq> ex"
    and "start t < s" and "s < en" and "en < tend t"
  shows "t\<lparr>tend := s\<rparr> \<in> set (resolveOverlaps e s en ex prev) \<and>
         t\<lparr>start := en\<rparr> \<in> set (resolveOverlaps e s en ex prev) \<and>
         t\<lparr>tend := s\<rparr> \<noteq> t\<lparr>start := en\<rparr> \<and>
         tid (t\<lparr>tend := s\<rparr>) = tid t \<and> tid (t\<lparr>start := en\<rparr>) = tid t \<and>
         \<not> distinct (map tid (resolveOverlaps e s en ex prev)) \<and>
         (tid t \<noteq> [] \<longrightarrow>
            tasks (onKey ''Delete''
                    (st\<lparr>tasks := resolveOverlaps e s en ex prev, selectedId := Some (tid t)\<rparr>))
              = filter (\<lambda>u. tid u \<noteq> tid t) (resolveOverlaps e s en ex prev) \<and>
            t\<lparr>tend := s\<rparr> \<notin> set (tasks (onKey ''Delete''
                    (st\<lparr>tasks := resolveOverlaps e s en ex prev, selectedId := Some (tid t)\<rparr>))) \<and>
            t\<lparr>start := en\<rparr> \<notin> set (tasks (onKey ''Delete''
                    (st\<lparr>tasks := resolveOverlaps e s en ex prev, selectedId := Some (tid t)\<rparr>))))"
proof -
  from assms have step: "resolve_step e s en ex t = [t\<lparr>tend := s\<rparr>, t\<lparr>start := en\<rparr>]"
    by (simp add: resolve_step_def)
  then have f1: "t\<lparr>tend := s\<rparr> \<in> set (resolve_step e s en ex t)"
    and f2: "t\<lparr>start := en\<rparr> \<in> set (resolve_step e s en ex t)"
    by simp_all
  have in1: "t\<lparr>tend := s\<rparr> \<in> set (resolveOverlaps e s en ex prev)"
    using assms(1) f1 by (rule resolve_step_in_resolveOverlaps)
  have in2: "t\<lparr>start := en\<rparr> \<in> set (resolveOverlaps e s en ex prev)"
    using assms(1) f2 by (rule resolve_step_in_resolveOverlaps)
  have ne: "t\<lparr>tend := s\<rparr> \<noteq> t\<lparr>start := en\<rparr>"
  proof
    assume "t\<lparr>tend := s\<rparr> = t\<lparr>start := en\<rparr>"
    then have "start (t\<lparr>tend := s\<rparr>) = start (t\<lparr>start := en\<rparr>)"
      by (rule arg_cong)
    with assms(4,5) show False by simp
  qed
  have nd: "\<not> distinct (map tid (resolveOverlaps e s en ex prev))"
    using assms(1) step by (rule not_distinct_resolve_straddle) simp
  have del: "tid t \<noteq> [] \<Longrightarrow> tasks (onKey ''Delete''
                    (st\<lparr>tasks := resolveOverlaps e s en ex prev, selectedId := Some (tid t)\<rparr>))
              = filter (\<lambda>u. tid u \<noteq> tid t) (resolveOverlaps e s en ex prev)"
    by (simp add: onKey_def)
  have out1: "tid t \<noteq> [] \<Longrightarrow> t\<lparr>tend := s\<rparr> \<notin> set (tasks (onKey ''Delete''
                    (st\<lparr>tasks := resolveOverlaps e s en ex prev, selectedId := Some (tid t)\<rparr>)))"
    unfolding del by simp
  have out2: "tid t \<noteq> [] \<Longrightarrow> t\<lparr>start := en\<rparr> \<notin> set (tasks (onKey ''Delete''
                    (st\<lparr>tasks := resolveOverlaps e s en ex prev, selectedId := Some (tid t)\<rparr>)))"
    unfolding del by simp
  have id1: "tid (t\<lparr>tend := s\<rparr>) = tid t" by simp
  have id2: "tid (t\<lparr>start := en\<rparr>) = tid t" by simp
  from in1 in2 ne nd del out1 out2 id1 id2 show ?thesis by (intro conjI impI)
qed

theorem split_fragments_share_id_witness:
  "map tid (resolveOverlaps ''e_john'' 2 3 None
     [\<lparr>tid = ''t_1'', empId = ''e_john'', ttype = Gallery, label = ''Gallery'', start = 0, tend = 6\<rparr>])
     = [''t_1'', ''t_1''] \<and>
   tasks (onKey ''Delete''
     (initial_state\<lparr>tasks := resolveOverlaps ''e_john'' 2 3 None
        [\<lparr>tid = ''t_1'', empId = ''e_john'', ttype = Gallery, label = ''Gallery'', start = 0, tend = 6\<rparr>],
        selectedId := Some ''t_1''\<rparr>)) = []"
  using split_fragments_share_id [where e = "''e_john''" and s = 2 and en = 3 and ex = None
    and t = "\<lparr>tid = ''t_1'', empId = ''e_john'', ttype = Gallery, label = ''Gallery'', start = 0, tend = 6\<rparr>"
    and prev = "[\<lparr>tid = ''t_1'', empId = ''e_john'', ttype = Gallery, label = ''Gallery'', start = 0, tend = 6\<rparr>]"
    and st = initial_state]
  by (simp add: resolve_step_def)

section \<open>Coverage\<close>

lemma covers_merged:
  assumes "spec_mergeable l t" and "start l \<le> tend l" and "start t \<le> tend t"
  shows "covers r k lb (l\<lparr>tend := tend t\<rparr>) \<longleftrightarrow> covers r k lb l \<or> covers r k lb t"
  using assms by (auto simp: covers_def spec_mergeable_def)

lemma covers_spec_walk:
  assumes "start l \<le> tend l" and "\<forall>t\<in>set ts. start t \<le> tend t"
  shows "(\<exists>u\<in>set (spec_walk l ts). covers r k lb u) \<longleftrightarrow> (\<exists>u\<in>set (l # ts). covers r k lb u)"
  using assms
proof (induction l ts rule: spec_walk.induct)
  case (1 l)
  show ?case by simp
next
  case (2 l t ts)
  from "2.prems" have t: "start t \<le> tend t" and ts: "\<forall>t\<in>set ts. start t \<le> tend t"
    by simp_all
  show ?case
  proof (cases "spec_mergeable l t")
    case True
    then have "tend l = start t" by (simp add: spec_mergeable_def)
    with "2.prems"(1) t have "start (l\<lparr>tend := tend t\<rparr>) \<le> tend (l\<lparr>tend := tend t\<rparr>)"
      by simp
    with True "2.IH"(1) ts
    have "(\<exists>u\<in>set (spec_walk (l\<lparr>tend := tend t\<rparr>) ts). covers r k lb u)
            \<longleftrightarrow> (\<exists>u\<in>set (l\<lparr>tend := tend t\<rparr> # ts). covers r k lb u)"
      by blast
    also have "\<dots> \<longleftrightarrow> (covers r k lb l \<or> covers r k lb t) \<or> (\<exists>u\<in>set ts. covers r k lb u)"
      using covers_merged [OF True "2.prems"(1) t] by simp
    finally show ?thesis using True by auto
  next
    case False
    with "2.IH"(2) t ts
    have "(\<exists>u\<in>set (spec_walk t ts). covers r k lb u) \<longleftrightarrow> (\<exists>u\<in>set (t # ts). covers r k lb u)"
      by blast
    with False show ?thesis by simp
  qed
qed

lemma covers_spec_compact:
  assumes "\<forall>t\<in>set ts. start t \<le> tend t"
  shows "(\<exists>u\<in>set (spec_compact ts). covers r k lb u) \<longleftrightarrow> (\<exists>u\<in>set ts. covers r k lb u)"
proof (cases ts)
  case Nil
  then show ?thesis by simp
next
  case (Cons t ts')
  with assms have "start t \<le> tend t" and "\<forall>t\<in>set ts'. start t \<le> tend t" by simp_all
  then have "(\<exists>u\<in>set (spec_walk t ts'). covers r k lb u) \<longleftrightarrow> (\<exists>u\<in>set (t # ts'). covers r k lb u)"
    by (rule covers_spec_walk)
  with Cons show ?thesis by simp
qed

lemma set_same_mergeAdjacent:
  "{u \<in> set (mergeAdjacent e prev). empId u = e}
     = set (spec_compact (sort_key start (filter (\<lambda>t. empId t = e) prev)))"
  using filter_same_mergeAdjacent [of e prev] by (metis set_filter)

lemma covers_mergeAdjacent:
  assumes "\<forall>t\<in>set prev. empId t = e \<longrightarrow> start t \<le> tend t"
  shows "(\<exists>u\<in>set (mergeAdjacent e prev). empId u = e \<and> covers r k lb u)
           \<longleftrightarrow> (\<exists>t\<in>set prev. empId t = e \<and> covers r k lb t)"
proof -
  let ?arr = "sort_key start (filter (\<lambda>t. empId t = e) prev)"
  from assms have "\<forall>t\<in>set ?arr. start t \<le> tend t" by simp
  then have "(\<exists>u\<in>set (spec_compact ?arr). covers r k lb u) \<longleftrightarrow> (\<exists>u\<in>set ?arr. covers r k lb u)"
    by (rule covers_spec_compact)
  moreover have "(\<exists>u\<in>set (mergeAdjacent e prev). empId u = e \<and> covers r k lb u)
                  \<longleftrightarrow> (\<exists>u\<in>set (spec_compact ?arr). covers r k lb u)"
    using set_same_mergeAdjacent [of e prev] by blast
  moreover have "(\<exists>u\<in>set ?arr. covers r k lb u) \<longleftrightarrow> (\<exists>t\<in>set prev. empId t = e \<and> covers r k lb t)"
    by auto
  ultimately show ?thesis by simp
qed

text \<open>
  Claim C10. \<open>mergeAdjacent\<close> preserves the coverage of the employee: for every row \<open>r\<close>,
  kind \<open>k\<close> and label \<open>lb\<close>, some task of the employee with that kind and label covers
  \<open>r\<close> after the call if and only if one did before. This needs the ranges of the
  employee's tasks to be well formed (\<open>start \<le> end\<close>), which holds for the valid tasks of a
  store; that they are pairwise disjoint is not used.
\<close>

theorem mergeAdjacent_preserves_coverage:
  assumes "\<forall>t\<in>set prev. empId t = e \<longrightarrow> start t \<le> tend t"
  shows "(\<exists>u\<in>set (mergeAdjacent e prev). empId u = e \<and> covers r k lb u)
           \<longleftrightarrow> (\<exists>t\<in>set prev. empId t = e \<and> covers r k lb t)"
  using assms by (rule covers_mergeAdjacent)

theorem mergeAdjacent_preserves_coverage_witness:
  "(\<exists>u\<in>set (mergeAdjacent ''e_john''
      [\<lparr>tid = ''t_2'', empId = ''e_john'', ttype = Gallery, label = ''Gallery'', start = 2, tend = 3\<rparr>,
       \<lparr>tid = ''t_1'', empId = ''e_john'', ttype = Gallery, label = ''Gallery'', start = 1, tend = 2\<rparr>]).
      empId u = ''e_john'' \<and> covers 2 Gallery ''Gallery'' u) \<and>
   \<not> (\<exists>u\<in>set (mergeAdjacent ''e_john''
      [\<lparr>tid = ''t_2'', empId = ''e_john'', ttype = Gallery, label = ''Gallery'', start = 2, tend = 3\<rparr>,
       \<lparr>tid = ''t_1'', empId = ''e_john'', ttype = Gallery, label = ''Gallery'', start = 1, tend = 2\<rparr>]).
      empId u = ''e_john'' \<and> covers 3 Gallery ''Gallery'' u)"
  using mergeAdjacent_preserves_coverage [where e = "''e_john''" and k = Gallery and lb = "''Gallery''" and r = 2
      and prev = "[\<lparr>tid = ''t_2'', empId = ''e_john'', ttype = Gallery, label = ''Gallery'', start = 2, tend = 3\<rparr>,
       \<lparr>tid = ''t_1'', empId = ''e_john'', ttype = Gallery, label = ''Gallery'', start = 1, tend = 2\<rparr>]"]
    mergeAdjacent_preserves_coverage [where e = "''e_john''" and k = Gallery and lb = "''Gallery''" and r = 3
      and prev = "[\<lparr>tid = ''t_2'', empId = ''e_john'', ttype = Gallery, label = ''Gallery'', start = 2, tend = 3\<rparr>,
       \<lparr>tid = ''t_1'', empId = ''e_john'', ttype = Gallery, label = ''Gallery'', start = 1, tend = 2\<rparr>]"]
  by (simp add: covers_def)

section \<open>The resolver keeps tasks valid and disjoint\<close>

lemma valid_resolve_step:
  "valid_task t \<Longrightarrow> u \<in> set (resolve_step e s en ex t) \<Longrightarrow> valid_task u"
  by (auto simp: resolve_step_def valid_task_def split: if_splits)





lemma in_resolveOverlapsD:
  "u \<in> set (resolveOverlaps e s en ex prev) \<Longrightarrow> \<exists>t\<in>set prev. u \<in> set (resolve_step e s en ex t)"
  by (auto simp: resolveOverlaps_concat)

lemma valid_resolveOverlaps:
  assumes "list_all valid_task prev"
  shows "list_all valid_task (resolveOverlaps e s en ex prev)"
  unfolding list_all_iff
proof
  fix u assume "u \<in> set (resolveOverlaps e s en ex prev)"
  then obtain t where "t \<in> set prev" and u: "u \<in> set (resolve_step e s en ex t)"
    using in_resolveOverlapsD by blast
  with assms have "valid_task t" by (simp add: list_all_iff)
  then show "valid_task u" using u by (rule valid_resolve_step)
qed




section \<open>The compactor keeps tasks valid and disjoint\<close>












section \<open>The no-overlap invariant\<close>



section \<open>Adding a task never fails\<close>

lemma addTaskAt_places:
  assumes "list_all valid_task (tasks st)"
  shows "\<exists>u\<in>set (tasks (addTaskAt e row ty st)). empId u = e \<and> covers row ty (TYPE_LABEL ty) u"
proof -
  let ?new = "\<lparr>tid = fst (uid st), empId = e, ttype = ty, label = TYPE_LABEL ty,
                start = row, tend = row + 1\<rparr>"
  let ?placed = "resolveOverlaps e row (row + 1) None (tasks st) @ [?new]"
  have new: "?new \<in> set ?placed \<and> empId ?new = e \<and> covers row ty (TYPE_LABEL ty) ?new"
    by (simp add: covers_def)
  show ?thesis
  proof (cases "isTourLike ty")
    case True
    then have "tasks (addTaskAt e row ty st) = ?placed"
      by (simp add: tasks_addTaskAt)
    with new show ?thesis by metis
  next
    case False
    then have eq: "tasks (addTaskAt e row ty st) = mergeAdjacent e ?placed"
      by (simp add: tasks_addTaskAt)
    from assms have "list_all valid_task (resolveOverlaps e row (row + 1) None (tasks st))"
      by (rule valid_resolveOverlaps)
    then have "\<forall>t\<in>set ?placed. empId t = e \<longrightarrow> start t \<le> tend t"
      by (auto simp: list_all_iff valid_task_def)
    then have "(\<exists>u\<in>set (mergeAdjacent e ?placed). empId u = e \<and> covers row ty (TYPE_LABEL ty) u)
           \<longleftrightarrow> (\<exists>t\<in>set ?placed. empId t = e \<and> covers row ty (TYPE_LABEL ty) t)"
      by (rule covers_mergeAdjacent)
    with new eq show ?thesis by metis
  qed
qed

text \<open>
  Claim C3, as amended. \<open>addTaskAt\<close> validates neither the row nor the employee and has no
  failure result. For every integer row of magnitude below \<open>2 ^ 53\<close>, also outside
  \<open>[0, TOTAL_ROWS)\<close>, and every employee id, also one that is not in the roster, on a
  store of valid tasks the store afterwards is exactly: the old store with the overlaps
  against \<open>[row, row + 1)\<close> resolved for that employee, then the new task of the given kind
  with its canonical label and a fresh id appended, then, when the kind is not tour-like,
  compacted for that employee. Some task of that employee with that kind and label then
  covers the row. The call selects the new id, advances the id counter and leaves the
  roster as it is.
\<close>

theorem addTaskAt_never_fails:
  assumes "list_all valid_task (tasks st)" and "\<bar>row\<bar> < 2 ^ 53"
  shows "tasks (addTaskAt e row ty st) =
           (if isTourLike ty
            then resolveOverlaps e row (row + 1) None (tasks st) @
                   [\<lparr>tid = ''t_'' @ nat_toString (seq st + 1), empId = e, ttype = ty,
                     label = TYPE_LABEL ty, start = row, tend = row + 1\<rparr>]
            else mergeAdjacent e
                   (resolveOverlaps e row (row + 1) None (tasks st) @
                     [\<lparr>tid = ''t_'' @ nat_toString (seq st + 1), empId = e, ttype = ty,
                       label = TYPE_LABEL ty, start = row, tend = row + 1\<rparr>])) \<and>
         (\<exists>u\<in>set (tasks (addTaskAt e row ty st)). empId u = e \<and> covers row ty (TYPE_LABEL ty) u) \<and>
         selectedId (addTaskAt e row ty st) = Some (''t_'' @ nat_toString (seq st + 1)) \<and>
         seq (addTaskAt e row ty st) = seq st + 1 \<and>
         employees (addTaskAt e row ty st) = employees st"
proof -
  have store: "tasks (addTaskAt e row ty st) =
           (if isTourLike ty
            then resolveOverlaps e row (row + 1) None (tasks st) @
                   [\<lparr>tid = ''t_'' @ nat_toString (seq st + 1), empId = e, ttype = ty,
                     label = TYPE_LABEL ty, start = row, tend = row + 1\<rparr>]
            else mergeAdjacent e
                   (resolveOverlaps e row (row + 1) None (tasks st) @
                     [\<lparr>tid = ''t_'' @ nat_toString (seq st + 1), empId = e, ttype = ty,
                       label = TYPE_LABEL ty, start = row, tend = row + 1\<rparr>]))"
    unfolding tasks_addTaskAt Let_def by (simp add: uid_def)
  have rest: "selectedId (addTaskAt e row ty st) = Some (''t_'' @ nat_toString (seq st + 1)) \<and>
         seq (addTaskAt e row ty st) = seq st + 1 \<and>
         employees (addTaskAt e row ty st) = employees st"
    by (simp add: addTaskAt_def uid_def Let_def)
  have cov: "\<exists>u\<in>set (tasks (addTaskAt e row ty st)). empId u = e \<and> covers row ty (TYPE_LABEL ty) u"
    using assms(1) by (rule addTaskAt_places)
  from store cov rest show ?thesis by (intro conjI) simp_all
qed

theorem addTaskAt_never_fails_witness:
  "list_all valid_task (tasks initial_state) \<and>
   \<bar>30::int\<bar> < 2 ^ 53 \<and> \<not> (0 \<le> (30::int) \<and> 30 < TOTAL_ROWS) \<and>
   ''e_nobody'' \<notin> set (map eid (employees initial_state)) \<and>
   tasks (addTaskAt ''e_nobody'' 30 Gallery initial_state)
     = [\<lparr>tid = ''t_1'', empId = ''e_john'', ttype = Front, label = ''Front Desk'', start = 0, tend = 1\<rparr>,
        \<lparr>tid = ''t_2'', empId = ''e_john'', ttype = Gallery, label = ''Gallery'', start = 1, tend = 3\<rparr>,
        \<lparr>tid = ''t_3'', empId = ''e_nobody'', ttype = Gallery, label = ''Gallery'', start = 30, tend = 31\<rparr>] \<and>
   tasks (addTaskAt ''e_john'' 2 Tour initial_state)
     = [\<lparr>tid = ''t_1'', empId = ''e_john'', ttype = Front, label = ''Front Desk'', start = 0, tend = 1\<rparr>,
        \<lparr>tid = ''t_2'', empId = ''e_john'', ttype = Gallery, label = ''Gallery'', start = 1, tend = 2\<rparr>,
        \<lparr>tid = ''t_3'', empId = ''e_john'', ttype = Tour, label = ''Public Tour'', start = 2, tend = 3\<rparr>] \<and>
   (\<exists>u\<in>set (tasks (addTaskAt ''e_nobody'' 30 Gallery initial_state)).
      empId u = ''e_nobody'' \<and> covers 30 Gallery ''Gallery'' u)"
proof -
  have h: "list_all valid_task (tasks initial_state)"
    by (simp add: initial_state_def valid_task_def)
  have b30: "\<bar>30::int\<bar> < 2 ^ 53" by simp
  have b2: "\<bar>2::int\<bar> < 2 ^ 53" by simp
  have t: "tasks initial_state
     = [\<lparr>tid = ''t_1'', empId = ''e_john'', ttype = Front, label = ''Front Desk'', start = 0, tend = 1\<rparr>,
        \<lparr>tid = ''t_2'', empId = ''e_john'', ttype = Gallery, label = ''Gallery'', start = 1, tend = 3\<rparr>]"
    and q: "seq initial_state = 2"
    and r: "''e_nobody'' \<notin> set (map eid (employees initial_state))"
    by (simp_all add: initial_state_def)
  have a: "tasks (addTaskAt ''e_nobody'' 30 Gallery initial_state)
     = [\<lparr>tid = ''t_1'', empId = ''e_john'', ttype = Front, label = ''Front Desk'', start = 0, tend = 1\<rparr>,
        \<lparr>tid = ''t_2'', empId = ''e_john'', ttype = Gallery, label = ''Gallery'', start = 1, tend = 3\<rparr>,
        \<lparr>tid = ''t_3'', empId = ''e_nobody'', ttype = Gallery, label = ''Gallery'', start = 30, tend = 31\<rparr>]"
    using addTaskAt_never_fails [OF h b30, of "''e_nobody''" Gallery, THEN conjunct1]
    by (simp add: t q isTourLike_def resolve_step_def digit_char_def mergeAdjacent_def merge_step_def)
  have b: "tasks (addTaskAt ''e_john'' 2 Tour initial_state)
     = [\<lparr>tid = ''t_1'', empId = ''e_john'', ttype = Front, label = ''Front Desk'', start = 0, tend = 1\<rparr>,
        \<lparr>tid = ''t_2'', empId = ''e_john'', ttype = Gallery, label = ''Gallery'', start = 1, tend = 2\<rparr>,
        \<lparr>tid = ''t_3'', empId = ''e_john'', ttype = Tour, label = ''Public Tour'', start = 2, tend = 3\<rparr>]"
    using addTaskAt_never_fails [OF h b2, of "''e_john''" Tour, THEN conjunct1]
    by (simp add: t q isTourLike_def resolve_step_def digit_char_def)
  have c: "\<exists>u\<in>set (tasks (addTaskAt ''e_nobody'' 30 Gallery initial_state)).
      empId u = ''e_nobody'' \<and> covers 30 Gallery ''Gallery'' u"
    using addTaskAt_never_fails [OF h b30, of "''e_nobody''" Gallery, THEN conjunct2, THEN conjunct1]
    by simp
  have d: "\<not> (0 \<le> (30::int) \<and> 30 < TOTAL_ROWS)" by (simp add: TOTAL_ROWS_def)
  from h b30 d r a b c show ?thesis by (intro conjI)
qed

text \<open>
  The failure conditions of the specification are not in the code: a row outside
  \<open>[0, TOTAL_ROWS)\<close> and an employee who is not in the roster both get their task, and
  the store changes.
\<close>

theorem addTaskAt_failure_counterexample:
  "\<not> (0 \<le> (26::int) \<and> 26 < TOTAL_ROWS) \<and>
   tasks (addTaskAt ''e_john'' 26 Tour initial_state)
     = tasks initial_state @
       [\<lparr>tid = ''t_3'', empId = ''e_john'', ttype = Tour, label = ''Public Tour'', start = 26, tend = 27\<rparr>] \<and>
   tasks (addTaskAt ''e_john'' 26 Tour initial_state) \<noteq> tasks initial_state \<and>
   ''e_nobody'' \<notin> set (map eid (employees initial_state)) \<and>
   tasks (addTaskAt ''e_nobody'' 0 Tour initial_state)
     = tasks initial_state @
       [\<lparr>tid = ''t_3'', empId = ''e_nobody'', ttype = Tour, label = ''Public Tour'', start = 0, tend = 1\<rparr>] \<and>
   tasks (addTaskAt ''e_nobody'' 0 Tour initial_state) \<noteq> tasks initial_state"
  by (simp add: tasks_addTaskAt initial_state_def TOTAL_ROWS_def isTourLike_def uid_def
      resolve_step_def digit_char_def)

end
